theory Spec2Isabelle
  imports Complex_Main "HOL-Library.Sublist" "HOL-Library.Multiset"
begin

section \<open>Shared data model\<close>

text \<open>
  A Python \<open>str\<close> is a sequence of Unicode code points, and \<open>len\<close>, slicing and
  \<open>strip\<close> count code points. It is modelled as a list of code point numbers.
  \<open>str_of\<close> writes an ASCII literal as such a list.
\<close>

type_synonym pystr = "nat list"

definition str_of :: "string \<Rightarrow> pystr" where
  "str_of s = map of_char s"

text \<open>The exceptions of the modelled code paths, as values.\<close>

datatype py_error = KeyError | ValueError | ZeroDivisionError

text \<open>
  Floating point. The source computes similarities and durations in IEEE floating point
  (Python \<open>float\<close>, numpy arrays). Rounding is not modelled by exact arithmetic here:
  a type variable \<open>'f\<close> of sort \<open>linorder\<close> stands for the floating-point values as
  the comparisons \<open><\<close>, \<open>\<le>\<close> and \<open>==\<close> see them (NaN, which no comparison orders,
  is not a value of the type), and every arithmetic operation the source performs on
  them is a parameter. What is proved holds for every choice of these operations, and so
  for the rounding ones. \<open>exact_arith\<close> below is the instance of exact real arithmetic;
  it is used only at inputs where every intermediate value is a small integer or a
  dyadic fraction, on which IEEE arithmetic is exact.
\<close>

text \<open>
  A catalog entry (a \<open>dict\<close> in the source). \<open>embedding\<close> is the derived key that
  \<open>main.load_clips\<close> adds after loading; it is absent (\<open>None\<close>) in a clip as persisted.
  Embeddings are the vectors of one sentence encoder, of one fixed length; their type is
  the type variable \<open>'v\<close>. The key \<open>text\<close> is the field \<open>clip_text\<close> (\<open>text\<close> is a
  keyword here). The keys \<open>text_original\<close>, \<open>start\<close>, \<open>end\<close>, \<open>duration\<close> and
  \<open>energy_db\<close> are read by none of the functions modelled here and are left out.
\<close>

record 'v clip =
  clip_file :: pystr
  source_file :: pystr
  clip_text :: pystr
  embedding :: "'v option"

section \<open>Semantic retrieval (utils.py)\<close>

text \<open>
  The numeric operations behind \<open>cosine_similarity\<close> and the configured threshold:
  \<open>np.linalg.norm\<close>, \<open>np.dot\<close>, the product and the quotient of two floats, the
  float \<open>0.0\<close> (to which the integer \<open>0\<close> compares equal), and
  \<open>config.SEMANTIC_THRESHOLD\<close> (the float written \<open>0.6\<close>).
\<close>

record ('v, 'f) numeric =
  np_norm :: "'v \<Rightarrow> 'f"
  np_dot :: "'v \<Rightarrow> 'v \<Rightarrow> 'f"
  f_mul :: "'f \<Rightarrow> 'f \<Rightarrow> 'f"
  f_div :: "'f \<Rightarrow> 'f \<Rightarrow> 'f"
  f_zero :: 'f
  SEMANTIC_THRESHOLD :: 'f

definition cosine_similarity :: "('v, 'f) numeric \<Rightarrow> 'v \<Rightarrow> 'v \<Rightarrow> 'f" where
  "cosine_similarity N a b =
     (let norm_a = np_norm N a; norm_b = np_norm N b in
      if norm_a = f_zero N \<or> norm_b = f_zero N then f_zero N
      else f_div N (np_dot N a b) (f_mul N norm_a norm_b))"

text \<open>
  The scoring loop of \<open>find_best_clips\<close>: \<open>clip["embedding"]\<close> raises \<open>KeyError\<close>
  on a clip without the key, and the first exception ends the loop.
\<close>

fun score_clips ::
  "('v, 'f) numeric \<Rightarrow> 'v \<Rightarrow> 'v clip list \<Rightarrow> py_error + ('f \<times> 'v clip) list" where
  "score_clips N phrase_emb [] = Inr []"
| "score_clips N phrase_emb (c # cs) =
     (case embedding c of
        None \<Rightarrow> Inl KeyError
      | Some e \<Rightarrow>
          (let sim = cosine_similarity N phrase_emb e in
           case score_clips N phrase_emb cs of
             Inl err \<Rightarrow> Inl err
           | Inr scored \<Rightarrow> Inr ((sim, c) # scored)))"

text \<open>
  \<open>list.sort(reverse=True, key=f)\<close>: CPython reverses the list, sorts it stably in
  ascending key order and reverses it again, so that equal keys keep their original
  order. \<open>sort_key\<close> is the stable insertion sort of the HOL list library.
\<close>

definition sort_reverse :: "('a \<Rightarrow> 'k::linorder) \<Rightarrow> 'a list \<Rightarrow> 'a list" where
  "sort_reverse f xs = rev (sort_key f (rev xs))"

text \<open>
  \<open>find_best_clips\<close>. The sentence encoder (\<open>encode_text\<close>, a SentenceTransformer
  model) is an external collaborator and is a parameter of the model.
  \<open>min_similarity = None\<close> selects the configured threshold. \<open>top_n\<close> is a count
  (the callers pass 1 or \<open>MAX_CLIPS_PER_BEAT = 3\<close>), a natural number, so that the
  slice \<open>[:top_n]\<close> is \<open>take top_n\<close>.
\<close>

definition find_best_clips ::
  "('v, 'f::linorder) numeric \<Rightarrow> (pystr \<Rightarrow> 'v) \<Rightarrow> pystr \<Rightarrow> 'v clip list \<Rightarrow> nat \<Rightarrow> 'f option
     \<Rightarrow> py_error + 'v clip list" where
  "find_best_clips N encode_text phrase_text clips top_n min_similarity =
     (let min_sim = (case min_similarity of None \<Rightarrow> SEMANTIC_THRESHOLD N | Some m \<Rightarrow> m);
          phrase_emb = encode_text phrase_text
      in case score_clips N phrase_emb clips of
           Inl err \<Rightarrow> Inl err
         | Inr scored \<Rightarrow>
             Inr (take top_n
                    (map snd (filter (\<lambda>(sim_val, clip). min_sim \<le> sim_val)
                                (sort_reverse fst scored)))))"

text \<open>
  The similarity that \<open>find_best_clips\<close> computes for a clip that carries an
  embedding, for use in statements.
\<close>

definition clip_similarity :: "('v, 'f) numeric \<Rightarrow> 'v \<Rightarrow> 'v clip \<Rightarrow> 'f" where
  "clip_similarity N phrase_emb c =
     (case embedding c of
        None \<Rightarrow> f_zero N
      | Some e \<Rightarrow> cosine_similarity N phrase_emb e)"

text \<open>Every clip carries an embedding.\<close>

definition embedded :: "'v clip list \<Rightarrow> bool" where
  "embedded clips = list_all (\<lambda>c. embedding c \<noteq> None) clips"

text \<open>
  Exact real arithmetic on lists of reals, and concrete inputs for the evaluations
  below. On these inputs every value that \<open>cosine_similarity\<close> computes is one of
  \<open>-1, 1, 2\<close>, on which floating-point arithmetic is exact.
\<close>

definition exact_arith :: "(real list, real) numeric" where
  "exact_arith =
     \<lparr>np_norm = (\<lambda>a. sqrt (sum_list (map (\<lambda>x. x * x) a))),
      np_dot = (\<lambda>a b. sum_list (map2 (*) a b)),
      f_mul = (*), f_div = (/), f_zero = 0, SEMANTIC_THRESHOLD = 6 / 10\<rparr>"

definition unit_encoder :: "pystr \<Rightarrow> real list" where
  "unit_encoder t = [1]"



definition clip_neg :: "real list clip" where
  "clip_neg = \<lparr>clip_file = str_of ''n.wav'', source_file = str_of ''s.mp3'', clip_text = str_of ''no'',
                embedding = Some [- 1]\<rparr>"

definition is_space :: "nat \<Rightarrow> bool" where
  "is_space c = ((9 \<le> c \<and> c \<le> 13) \<or> (28 \<le> c \<and> c \<le> 32) \<or> c = 133 \<or> c = 160
                 \<or> c = 5760 \<or> (8192 \<le> c \<and> c \<le> 8202) \<or> c = 8232 \<or> c = 8233
                 \<or> c = 8239 \<or> c = 8287 \<or> c = 12288)"

definition strip :: "pystr \<Rightarrow> pystr" where
  "strip s = rev (dropWhile is_space (rev (dropWhile is_space s)))"

fun join :: "pystr \<Rightarrow> pystr list \<Rightarrow> pystr" where
  "join sep [] = []"
| "join sep [x] = x"
| "join sep (x # y # ys) = x @ sep @ join sep (y # ys)"

section \<open>Segment splitter (clip_parser.py)\<close>

text \<open>
  A word timing and a Whisper segment (dicts in the source). Times are floats: the type
  variable \<open>'t\<close>, of which the model uses only the order. The one arithmetic operation
  of \<open>split_segment_by_words\<close>, the floating-point difference
  \<open>w["end"] - chunk_start\<close>, is the parameter \<open>fsub\<close>. A sub-segment that the
  function builds has no \<open>words\<close> key: \<open>seg_words = []\<close>, as \<open>segment.get("words", [])\<close>
  reads it.
\<close>

record 't word_timing =
  word :: pystr
  w_start :: 't
  w_end :: 't

record 't segment =
  seg_start :: 't
  seg_end :: 't
  seg_text :: pystr
  seg_words :: "'t word_timing list"

definition sub_segment :: "'t \<Rightarrow> 't word_timing list \<Rightarrow> 't segment" where
  "sub_segment chunk_start current_words =
     \<lparr>seg_start = chunk_start,
      seg_end = w_end (last current_words),
      seg_text = join (str_of '' '') (map (\<lambda>cw. strip (word cw)) current_words),
      seg_words = []\<rparr>"

text \<open>
  The \<open>for w in words\<close> loop with its state \<open>current_words\<close>, \<open>chunk_start\<close>,
  followed by the final flush; the result is the list of sub-segments appended from
  this point on.
\<close>

fun split_loop ::
  "('t \<Rightarrow> 't \<Rightarrow> 't::linorder) \<Rightarrow> 't \<Rightarrow> 't word_timing list \<Rightarrow> 't \<Rightarrow> 't word_timing list
     \<Rightarrow> 't segment list" where
  "split_loop fsub max_dur current_words chunk_start [] =
     (if current_words \<noteq> [] then [sub_segment chunk_start current_words] else [])"
| "split_loop fsub max_dur current_words chunk_start (w # ws) =
     (if current_words \<noteq> [] \<and> fsub (w_end w) chunk_start > max_dur
      then sub_segment chunk_start current_words # split_loop fsub max_dur [w] (w_start w) ws
      else split_loop fsub max_dur (current_words @ [w]) chunk_start ws)"

definition split_segment_by_words ::
  "('t \<Rightarrow> 't \<Rightarrow> 't::linorder) \<Rightarrow> 't segment \<Rightarrow> 't \<Rightarrow> 't segment list" where
  "split_segment_by_words fsub segment max_dur =
     (case seg_words segment of
        [] \<Rightarrow> [segment]
      | w # ws \<Rightarrow> split_loop fsub max_dur [] (w_start w) (w # ws))"

text \<open>The sub-segment of a non-empty group of words: it starts where its first word starts.\<close>

definition chunk_segment :: "'t word_timing list \<Rightarrow> 't segment" where
  "chunk_segment c = sub_segment (w_start (hd c)) c"

text \<open>
  Word timings in temporal order: no word ends before it starts, and no word starts
  before the previous one has ended.
\<close>

fun timings_ordered :: "('t::linorder) word_timing list \<Rightarrow> bool" where
  "timings_ordered [] = True"
| "timings_ordered [w] = (w_start w \<le> w_end w)"
| "timings_ordered (w # v # ws) =
     (w_start w \<le> w_end w \<and> w_end w \<le> w_start v \<and> timings_ordered (v # ws))"

text \<open>Word timings without pauses: every word starts when the previous one ends.\<close>

definition timings_contiguous :: "'t word_timing list \<Rightarrow> bool" where
  "timings_contiguous ws = successively (\<lambda>a b. w_end a = w_start b) ws"

text \<open>
  Concrete segments, with times in seconds that are integers, and \<open>max_dur\<close> an integer
  or 2.5: the floating-point difference of two such times is their exact difference.
\<close>

definition long_word_segment :: "real segment" where
  "long_word_segment =
     \<lparr>seg_start = 0, seg_end = 11, seg_text = str_of ''a b'',
      seg_words = [\<lparr>word = str_of '' a'', w_start = 0, w_end = 10\<rparr>,
                   \<lparr>word = str_of '' b'', w_start = 10, w_end = 11\<rparr>]\<rparr>"

definition three_word_segment :: "real segment" where
  "three_word_segment =
     \<lparr>seg_start = 0, seg_end = 3, seg_text = str_of ''a b c'',
      seg_words = [\<lparr>word = str_of '' a'', w_start = 0, w_end = 1\<rparr>,
                   \<lparr>word = str_of '' b'', w_start = 1, w_end = 2\<rparr>,
                   \<lparr>word = str_of '' c'', w_start = 2, w_end = 3\<rparr>]\<rparr>"

definition jumbled_segment :: "real segment" where
  "jumbled_segment =
     \<lparr>seg_start = 0, seg_end = 30, seg_text = str_of ''a b'',
      seg_words = [\<lparr>word = str_of '' a'', w_start = 10, w_end = 20\<rparr>,
                   \<lparr>word = str_of '' b'', w_start = 0, w_end = 30\<rparr>]\<rparr>"

definition paused_segment :: "real segment" where
  "paused_segment =
     \<lparr>seg_start = 0, seg_end = 3, seg_text = str_of ''a b'',
      seg_words = [\<lparr>word = str_of '' a'', w_start = 0, w_end = 1\<rparr>,
                   \<lparr>word = str_of '' b'', w_start = 2, w_end = 3\<rparr>]\<rparr>"

text \<open>The slice \<open>s[i:j]\<close> for \<open>0 \<le> i\<close> and \<open>0 \<le> j\<close>.\<close>

definition slice :: "nat \<Rightarrow> nat \<Rightarrow> 'a list \<Rightarrow> 'a list" where
  "slice i j s = take (j - i) (drop i s)"

text \<open>
  \<open>clean_hallucination\<close>: the inner loop over the positions \<open>i\<close> of one \<open>length\<close>,
  the outer loop over the lengths, and the function. A \<open>return\<close> inside the loops is
  the value \<open>Some\<close>.
\<close>

fun scan_positions :: "pystr \<Rightarrow> nat \<Rightarrow> nat list \<Rightarrow> pystr option" where
  "scan_positions text len [] = None"
| "scan_positions text len (i # is) =
     (let chunk = slice i (i + len) text;
          next_chunk = slice (i + len) (i + len * 2) text
      in if chunk = next_chunk
         then (let cleaned = strip (slice 0 i text)
               in if length cleaned > 0 then Some cleaned
                  else scan_positions text len is)
         else scan_positions text len is)"

fun scan_lengths :: "pystr \<Rightarrow> nat list \<Rightarrow> pystr option" where
  "scan_lengths text [] = None"
| "scan_lengths text (len # lens) =
     (case scan_positions text len [0..<length text - len * 2] of
        Some cleaned \<Rightarrow> Some cleaned
      | None \<Rightarrow> scan_lengths text lens)"

definition clean_hallucination :: "pystr \<Rightarrow> pystr" where
  "clean_hallucination text =
     (case scan_lengths text [2..<21] of
        Some cleaned \<Rightarrow> cleaned
      | None \<Rightarrow> strip (slice 0 100 text))"

text \<open>
  A substring of length \<open>L\<close> repeats immediately at position \<open>i\<close> of the text, and
  the text before it is not blank.
\<close>

definition repeats_at :: "pystr \<Rightarrow> nat \<Rightarrow> nat \<Rightarrow> bool" where
  "repeats_at text L i = (i + 2 * L \<le> length text \<and> slice i (i + L) text = slice (i + L) (i + L * 2) text)"

definition usable :: "pystr \<Rightarrow> nat \<Rightarrow> nat \<Rightarrow> bool" where
  "usable text L i = (repeats_at text L i \<and> strip (slice 0 i text) \<noteq> [])"

section \<open>Regular expressions (Python's re)\<close>

text \<open>
  The patterns of the source, as syntax trees. \<open>Chr c\<close> is a literal character,
  \<open>ChrI c\<close> a literal lower-case ASCII letter under \<open>re.IGNORECASE\<close>, \<open>OneOf cs\<close> a
  character set \<open>[...]\<close>, \<open>Space\<close> is \<open>\s\<close>, \<open>WordB\<close> is \<open>\b\<close>, \<open>Star\<close> the
  greedy \<open>*\<close>.
\<close>

datatype rx = Eps | Chr nat | ChrI nat | OneOf "nat list" | Space | WordB
  | Seq rx rx | Alt rx rx | Star rx

text \<open>
  A text character \<open>c\<close> matches the lower-case ASCII letter \<open>p\<close> under
  \<open>re.IGNORECASE\<close> when its lower case is \<open>p\<close>; beyond the two ASCII letters these
  are U+0130 and U+0131 for \<open>i\<close>, U+017F for \<open>s\<close> and U+212A for \<open>k\<close>.
\<close>

definition ci_match :: "nat \<Rightarrow> nat \<Rightarrow> bool" where
  "ci_match p c = (c = p \<or> c + 32 = p \<or> (p = 105 \<and> (c = 304 \<or> c = 305))
                   \<or> (p = 115 \<and> c = 383) \<or> (p = 107 \<and> c = 8490))"

text \<open>
  \<open>\w\<close> is an alphanumeric character or the underscore. Which characters beyond ASCII
  are alphanumeric is decided by the Unicode database of the Python runtime; that part is
  the parameter \<open>isalnum\<close>.
\<close>

definition is_word :: "(nat \<Rightarrow> bool) \<Rightarrow> nat \<Rightarrow> bool" where
  "is_word isalnum c =
     (if c < 128 then (48 \<le> c \<and> c \<le> 57) \<or> (65 \<le> c \<and> c \<le> 90) \<or> c = 95 \<or> (97 \<le> c \<and> c \<le> 122)
      else isalnum c)"

definition word_boundary :: "(nat \<Rightarrow> bool) \<Rightarrow> nat option \<Rightarrow> pystr \<Rightarrow> bool" where
  "word_boundary isalnum prev s =
     ((case prev of None \<Rightarrow> False | Some c \<Rightarrow> is_word isalnum c)
        \<noteq> (case s of [] \<Rightarrow> False | c # _ \<Rightarrow> is_word isalnum c))"

text \<open>
  A backtracking matcher. A position in the text is the character before it (for
  \<open>\b\<close>) and the rest of the text. \<open>rx_match r pos\<close> lists the positions at which a
  match of \<open>r\<close> starting at \<open>pos\<close> can end, in the order in which the backtracking
  engine tries them: the first alternative first, the longest repetition first. An
  iteration of a repetition that consumes no character ends the repetition.
\<close>

type_synonym pos = "nat option \<times> pystr"

definition one_char :: "(nat \<Rightarrow> bool) \<Rightarrow> pos \<Rightarrow> pos list" where
  "one_char ok pos = (case snd pos of [] \<Rightarrow> [] | c # cs \<Rightarrow> if ok c then [(Some c, cs)] else [])"

function (sequential) rx_match :: "(nat \<Rightarrow> bool) \<Rightarrow> rx \<Rightarrow> pos \<Rightarrow> pos list" where
  "rx_match isalnum Eps pos = [pos]"
| "rx_match isalnum (Chr c) pos = one_char (\<lambda>x. x = c) pos"
| "rx_match isalnum (ChrI c) pos = one_char (ci_match c) pos"
| "rx_match isalnum (OneOf cs) pos = one_char (\<lambda>x. x \<in> set cs) pos"
| "rx_match isalnum Space pos = one_char is_space pos"
| "rx_match isalnum WordB pos = (if word_boundary isalnum (fst pos) (snd pos) then [pos] else [])"
| "rx_match isalnum (Seq a b) pos = concat (map (rx_match isalnum b) (rx_match isalnum a pos))"
| "rx_match isalnum (Alt a b) pos = rx_match isalnum a pos @ rx_match isalnum b pos"
| "rx_match isalnum (Star a) pos =
     concat (map (rx_match isalnum (Star a))
               (filter (\<lambda>pos'. length (snd pos') < length (snd pos)) (rx_match isalnum a pos)))
     @ [pos]"
  by pat_completeness auto
termination
  by (relation "measures [\<lambda>(i, r, pos). size r, \<lambda>(i, r, pos). length (snd pos)]") auto


fun Times :: "nat \<Rightarrow> rx \<Rightarrow> rx" where
  "Times 0 a = Eps"
| "Times (Suc n) a = Seq a (Times n a)"

definition AtLeast :: "nat \<Rightarrow> rx \<Rightarrow> rx" where
  "AtLeast n a = Seq (Times n a) (Star a)"


fun WordI :: "pystr \<Rightarrow> rx" where
  "WordI [] = Eps"
| "WordI (c # cs) = Seq (if 97 \<le> c \<and> c \<le> 122 then ChrI c else Chr c) (WordI cs)"

text \<open>\<open>pattern.search(text)\<close>: is there a match starting at some position of the text.\<close>

fun search_from :: "(nat \<Rightarrow> bool) \<Rightarrow> rx \<Rightarrow> nat option \<Rightarrow> pystr \<Rightarrow> bool" where
  "search_from isalnum r prev [] = (rx_match isalnum r (prev, []) \<noteq> [])"
| "search_from isalnum r prev (c # cs) =
     (rx_match isalnum r (prev, c # cs) \<noteq> [] \<or> search_from isalnum r (Some c) cs)"

definition re_search :: "(nat \<Rightarrow> bool) \<Rightarrow> rx \<Rightarrow> pystr \<Rightarrow> bool" where
  "re_search isalnum r text = search_from isalnum r None text"





section \<open>Semantic beat splitting (utils.py)\<close>






section \<open>Lemmas on the retrieval engine\<close>

lemma score_clips_embedded:
  "embedded clips \<Longrightarrow>
     score_clips N pe clips = Inr (map (\<lambda>c. (clip_similarity N pe c, c)) clips)"
proof (induction clips)
  case Nil
  then show ?case by simp
next
  case (Cons c cs)
  from Cons.prems obtain e where e: "embedding c = Some e"
    by (auto simp: embedded_def)
  from Cons.prems have "embedded cs"
    by (simp add: embedded_def)
  then have rest: "score_clips N pe cs = Inr (map (\<lambda>c. (clip_similarity N pe c, c)) cs)"
    by (rule Cons.IH)
  show ?case
    by (simp add: e rest clip_similarity_def)
qed

lemma insort_key_map_pair:
  "insort_key fst (f c, c) (map (\<lambda>c. (f c, c)) xs) = map (\<lambda>c. (f c, c)) (insort_key f c xs)"
  by (induction xs) auto

lemma sort_key_map_pair:
  "sort_key fst (map (\<lambda>c. (f c, c)) xs) = map (\<lambda>c. (f c, c)) (sort_key f xs)"
  by (induction xs) (auto simp: insort_key_map_pair)

lemma sort_reverse_map_pair:
  "map snd (filter (\<lambda>(s, c). m \<le> s) (sort_reverse fst (map (\<lambda>c. (f c, c)) xs)))
     = filter (\<lambda>c. m \<le> f c) (sort_reverse f xs)"
proof -
  have "sort_reverse fst (map (\<lambda>c. (f c, c)) xs) = map (\<lambda>c. (f c, c)) (sort_reverse f xs)"
    by (simp add: sort_reverse_def rev_map sort_key_map_pair)
  then show ?thesis
    by (simp add: filter_map comp_def)
qed





lemma find_best_clips_embedded:
  assumes "embedded clips"
  shows "find_best_clips N enc q clips top_n ms =
           Inr (take top_n
                  (filter (\<lambda>c. (case ms of None \<Rightarrow> SEMANTIC_THRESHOLD N | Some m \<Rightarrow> m)
                                   \<le> clip_similarity N (enc q) c)
                     (sort_reverse (clip_similarity N (enc q)) clips)))"
  using score_clips_embedded [OF assms, of N "enc q"]
  by (simp add: find_best_clips_def Let_def sort_reverse_map_pair)




lemma eval_sim_neg: "clip_similarity exact_arith [1] clip_neg = - 1"
  by (simp add: clip_similarity_def clip_neg_def cosine_similarity_def exact_arith_def)


lemma embedded_neg: "embedded [clip_neg]"
  by (simp add: embedded_def clip_neg_def)





text \<open>
  The fallback call of \<open>process_message\<close> on a one-clip catalog, for any floating-point
  operations: if the similarity computed for the clip is negative, no clip is returned.
\<close>

lemma fallback_empty_if_negative:
  assumes "embedding c \<noteq> None" and "clip_similarity N (enc q) c < f_zero N"
  shows "find_best_clips N enc q [c] 1 (Some (f_zero N)) = Inr []"
proof -
  from assms(1) have "embedded [c]"
    by (simp add: embedded_def)
  from find_best_clips_embedded [OF this, of N enc q 1 "Some (f_zero N)"] assms(2)
  show ?thesis
    by (simp add: sort_reverse_def)
qed

text \<open>
  Claim C4. The fallback call \<open>find_best_clips(beat, clips, top_n=1, min_similarity=0)\<close>
  of \<open>process_message\<close> is meant to "grab the single best regardless", but the
  threshold 0 still filters: on a non-empty catalog whose only clip has a negative cosine
  similarity to the beat, it returns no clip. (Embedding \<open>[-1.0]\<close>, beat encoded as
  \<open>[1.0]\<close>: the norms are 1.0, the dot product is -1.0 and the similarity is -1.0,
  all exact in floating point.)
\<close>

theorem fallback_no_clip:
  "find_best_clips exact_arith unit_encoder [] [clip_neg] 1 (Some 0) = Inr []"
proof -
  have "embedding clip_neg \<noteq> None"
    by (simp add: clip_neg_def)
  moreover have "clip_similarity exact_arith (unit_encoder []) clip_neg < f_zero exact_arith"
    by (simp add: unit_encoder_def eval_sim_neg) (simp add: exact_arith_def)
  ultimately have "find_best_clips exact_arith unit_encoder [] [clip_neg] 1 (Some (f_zero exact_arith)) = Inr []"
    by (rule fallback_empty_if_negative)
  then show ?thesis
    by (simp add: exact_arith_def)
qed

section \<open>Segment splitter\<close>

lemma strip_example: "strip (str_of '' ab  '') = str_of ''ab''"
  by (simp add: strip_def str_of_def is_space_def)

text \<open>
  The loop invariant: \<open>chunk_start\<close> is the start of the first word of the current
  group, and every later word of the group passed the duration test.
\<close>

lemma split_loop_chunks:
  assumes "current_words @ ws \<noteq> [] \<longrightarrow> chunk_start = w_start (hd (current_words @ ws))"
      and "\<forall>v\<in>set (tl current_words). fsub (w_end v) chunk_start \<le> max_dur"
  shows "\<exists>chunks. split_loop fsub max_dur current_words chunk_start ws = map chunk_segment chunks
           \<and> concat chunks = current_words @ ws
           \<and> (\<forall>c\<in>set chunks. c \<noteq> [] \<and> (\<forall>v\<in>set (tl c). fsub (w_end v) (w_start (hd c)) \<le> max_dur))
           \<and> successively (\<lambda>c d. max_dur < fsub (w_end (hd d)) (w_start (hd c))) chunks
           \<and> (current_words \<noteq> [] \<longrightarrow> chunks \<noteq> [] \<and> prefix current_words (hd chunks))"
  using assms
proof (induction ws arbitrary: current_words chunk_start)
  case Nil
  show ?case
  proof (cases "current_words = []")
    case True
    then show ?thesis by simp
  next
    case False
    with Nil have cs: "chunk_start = w_start (hd current_words)" by simp
    from Nil.prems(2) have b: "\<forall>v\<in>set (tl current_words). fsub (w_end v) (w_start (hd current_words)) \<le> max_dur"
      by (simp add: cs)
    let ?chunks = "[current_words]"
    have "split_loop fsub max_dur current_words chunk_start [] = map chunk_segment ?chunks"
      using False by (simp add: chunk_segment_def cs)
    moreover have "concat ?chunks = current_words @ []" by simp
    moreover have "\<forall>c\<in>set ?chunks. c \<noteq> [] \<and> (\<forall>v\<in>set (tl c). fsub (w_end v) (w_start (hd c)) \<le> max_dur)"
      using False b by simp
    moreover have "successively (\<lambda>c d. max_dur < fsub (w_end (hd d)) (w_start (hd c))) ?chunks"
      by simp
    moreover have "current_words \<noteq> [] \<longrightarrow> ?chunks \<noteq> [] \<and> prefix current_words (hd ?chunks)"
      by simp
    ultimately show ?thesis by blast
  qed
next
  case (Cons w ws)
  show ?case
  proof (cases "current_words \<noteq> [] \<and> max_dur < fsub (w_end w) chunk_start")
    case True
    then have ne: "current_words \<noteq> []" and over: "max_dur < fsub (w_end w) chunk_start"
      by simp_all
    from ne Cons.prems(1) have cs: "chunk_start = w_start (hd current_words)" by simp
    from Cons.prems(2) have b: "\<forall>v\<in>set (tl current_words). fsub (w_end v) (w_start (hd current_words)) \<le> max_dur"
      by (simp add: cs)
    have "\<exists>chunks. split_loop fsub max_dur [w] (w_start w) ws = map chunk_segment chunks
           \<and> concat chunks = [w] @ ws
           \<and> (\<forall>c\<in>set chunks. c \<noteq> [] \<and> (\<forall>v\<in>set (tl c). fsub (w_end v) (w_start (hd c)) \<le> max_dur))
           \<and> successively (\<lambda>c d. max_dur < fsub (w_end (hd d)) (w_start (hd c))) chunks
           \<and> ([w] \<noteq> [] \<longrightarrow> chunks \<noteq> [] \<and> prefix [w] (hd chunks))"
      by (rule Cons.IH) simp_all
    then obtain chunks where ch: "split_loop fsub max_dur [w] (w_start w) ws = map chunk_segment chunks"
        "concat chunks = [w] @ ws"
        "\<forall>c\<in>set chunks. c \<noteq> [] \<and> (\<forall>v\<in>set (tl c). fsub (w_end v) (w_start (hd c)) \<le> max_dur)"
        "successively (\<lambda>c d. max_dur < fsub (w_end (hd d)) (w_start (hd c))) chunks"
        "chunks \<noteq> []" "prefix [w] (hd chunks)"
      by blast
    from ch(6) have hdw: "hd (hd chunks) = w"
      by (auto simp: prefix_def)
    let ?chunks = "current_words # chunks"
    have "split_loop fsub max_dur current_words chunk_start (w # ws) = map chunk_segment ?chunks"
      using True ch(1) by (simp add: chunk_segment_def cs)
    moreover have "concat ?chunks = current_words @ w # ws"
      using ch(2) by simp
    moreover have "\<forall>c\<in>set ?chunks. c \<noteq> [] \<and> (\<forall>v\<in>set (tl c). fsub (w_end v) (w_start (hd c)) \<le> max_dur)"
      using ne b ch(3) by simp
    moreover have "successively (\<lambda>c d. max_dur < fsub (w_end (hd d)) (w_start (hd c))) ?chunks"
      using ch(4) ch(5) over by (simp add: successively_Cons hdw cs)
    moreover have "current_words \<noteq> [] \<longrightarrow> ?chunks \<noteq> [] \<and> prefix current_words (hd ?chunks)"
      by simp
    ultimately show ?thesis by blast
  next
    case False
    then have step: "split_loop fsub max_dur current_words chunk_start (w # ws)
                 = split_loop fsub max_dur (current_words @ [w]) chunk_start ws"
      by auto
    have p1: "(current_words @ [w]) @ ws \<noteq> [] \<longrightarrow> chunk_start = w_start (hd ((current_words @ [w]) @ ws))"
      using Cons.prems(1) by simp
    have p2: "\<forall>v\<in>set (tl (current_words @ [w])). fsub (w_end v) chunk_start \<le> max_dur"
    proof (cases "current_words = []")
      case True
      then show ?thesis by simp
    next
      case ne: False
      with False have "fsub (w_end w) chunk_start \<le> max_dur" by simp
      with ne Cons.prems(2) show ?thesis by auto
    qed
    have "\<exists>chunks. split_loop fsub max_dur (current_words @ [w]) chunk_start ws = map chunk_segment chunks
           \<and> concat chunks = (current_words @ [w]) @ ws
           \<and> (\<forall>c\<in>set chunks. c \<noteq> [] \<and> (\<forall>v\<in>set (tl c). fsub (w_end v) (w_start (hd c)) \<le> max_dur))
           \<and> successively (\<lambda>c d. max_dur < fsub (w_end (hd d)) (w_start (hd c))) chunks
           \<and> (current_words @ [w] \<noteq> [] \<longrightarrow> chunks \<noteq> [] \<and> prefix (current_words @ [w]) (hd chunks))"
      using p1 p2 by (rule Cons.IH)
    then obtain chunks where ch: "split_loop fsub max_dur (current_words @ [w]) chunk_start ws = map chunk_segment chunks"
        "concat chunks = (current_words @ [w]) @ ws"
        "\<forall>c\<in>set chunks. c \<noteq> [] \<and> (\<forall>v\<in>set (tl c). fsub (w_end v) (w_start (hd c)) \<le> max_dur)"
        "successively (\<lambda>c d. max_dur < fsub (w_end (hd d)) (w_start (hd c))) chunks"
        "chunks \<noteq> []" "prefix (current_words @ [w]) (hd chunks)"
      by blast
    from ch(6) have "prefix current_words (hd chunks)"
      by (rule append_prefixD)
    with ch(1-5) have "split_loop fsub max_dur current_words chunk_start (w # ws) = map chunk_segment chunks
           \<and> concat chunks = current_words @ w # ws
           \<and> (\<forall>c\<in>set chunks. c \<noteq> [] \<and> (\<forall>v\<in>set (tl c). fsub (w_end v) (w_start (hd c)) \<le> max_dur))
           \<and> successively (\<lambda>c d. max_dur < fsub (w_end (hd d)) (w_start (hd c))) chunks
           \<and> (current_words \<noteq> [] \<longrightarrow> chunks \<noteq> [] \<and> prefix current_words (hd chunks))"
      unfolding step by simp
    then show ?thesis by blast
  qed
qed

lemma timings_ordered_sorted:
  "timings_ordered ws \<Longrightarrow>
     sorted_wrt (\<lambda>a b. w_end a \<le> w_start b) ws \<and> (\<forall>w\<in>set ws. w_start w \<le> w_end w)"
proof (induction ws rule: timings_ordered.induct)
  case 1
  then show ?case by simp
next
  case (2 w)
  then show ?case by simp
next
  case (3 w v ws)
  then have ih: "sorted_wrt (\<lambda>a b. w_end a \<le> w_start b) (v # ws)" "\<forall>x\<in>set (v # ws). w_start x \<le> w_end x"
    by simp_all
  have "w_end w \<le> w_start x" if "x \<in> set (v # ws)" for x
  proof (cases "x = v")
    case True
    with 3 show ?thesis by simp
  next
    case False
    with that have "x \<in> set ws" by simp
    with ih(1) have "w_end v \<le> w_start x" by simp
    moreover from ih(2) have "w_start v \<le> w_end v" by simp
    moreover from 3 have "w_end w \<le> w_start v" by simp
    ultimately show ?thesis by (meson order_trans)
  qed
  with 3 ih show ?case by simp
qed

lemma chunk_span:
  fixes c :: "('t::linorder) word_timing list"
  assumes "sorted_wrt (\<lambda>a b. w_end a \<le> w_start b) c" "\<forall>w\<in>set c. w_start w \<le> w_end w" "c \<noteq> []"
  shows "w_start (hd c) \<le> w_end (last c)"
proof (cases c)
  case Nil
  with assms show ?thesis by simp
next
  case (Cons x xs)
  show ?thesis
  proof (cases "xs = []")
    case True
    with Cons assms show ?thesis by simp
  next
    case False
    then have "last xs \<in> set xs" by simp
    with assms(1) Cons have "w_end x \<le> w_start (last xs)" by simp
    moreover from assms(2) Cons have "w_start x \<le> w_end x" by simp
    moreover from assms(2) Cons \<open>last xs \<in> set xs\<close> have "w_start (last xs) \<le> w_end (last xs)" by simp
    ultimately have "w_start x \<le> w_end (last xs)" by (meson order_trans)
    then show ?thesis using Cons False by simp
  qed
qed

lemma chunks_ordered:
  assumes "sorted_wrt (\<lambda>a b. w_end a \<le> w_start b) (concat chunks)" "\<forall>c\<in>set chunks. c \<noteq> []"
  shows "sorted_wrt (\<lambda>a b. seg_end a \<le> seg_start b) (map chunk_segment chunks)"
  using assms
proof (induction chunks)
  case Nil
  then show ?case by simp
next
  case (Cons c cs)
  from Cons.prems have ih: "sorted_wrt (\<lambda>a b. seg_end a \<le> seg_start b) (map chunk_segment cs)"
    by (intro Cons.IH) (simp_all add: sorted_wrt_append)
  from Cons.prems have cross: "\<forall>x\<in>set c. \<forall>y\<in>set (concat cs). w_end x \<le> w_start y"
    by (simp add: sorted_wrt_append)
  have "seg_end (chunk_segment c) \<le> seg_start (chunk_segment d)" if "d \<in> set cs" for d
  proof -
    from Cons.prems that have "c \<noteq> []" "d \<noteq> []" by auto
    then have "last c \<in> set c" "hd d \<in> set d" by simp_all
    with that have "hd d \<in> set (concat cs)" by auto
    with cross \<open>last c \<in> set c\<close> have "w_end (last c) \<le> w_start (hd d)"
      by blast
    then show ?thesis
      by (simp add: chunk_segment_def sub_segment_def)
  qed
  with ih show ?case by simp
qed

lemma chunks_contiguous:
  assumes "successively (\<lambda>a b. w_end a = w_start b) (concat chunks)" "\<forall>c\<in>set chunks. c \<noteq> []"
  shows "successively (\<lambda>a b. seg_end a = seg_start b) (map chunk_segment chunks)"
  using assms
proof (induction chunks)
  case Nil
  then show ?case by simp
next
  case (Cons c cs)
  from Cons.prems have ih: "successively (\<lambda>a b. seg_end a = seg_start b) (map chunk_segment cs)"
    by (intro Cons.IH) (simp_all add: successively_append_iff)
  show ?case
  proof (cases cs)
    case Nil
    then show ?thesis by simp
  next
    case (Cons d ds)
    with Cons.prems have "c \<noteq> []" "d \<noteq> []" by simp_all
    with Cons Cons.prems(1) have "w_end (last c) = w_start (hd d)"
      by (simp add: successively_append_iff)
    then have "seg_end (chunk_segment c) = seg_start (chunk_segment d)"
      by (simp add: chunk_segment_def sub_segment_def)
    with ih Cons show ?thesis
      by (simp add: successively_Cons)
  qed
qed

lemma chunk_bound_last:
  assumes "\<forall>v\<in>set (tl c). fsub (w_end v) (w_start (hd c)) \<le> max_dur" "c \<noteq> []"
  shows "length c = 1 \<or> fsub (seg_end (chunk_segment c)) (seg_start (chunk_segment c)) \<le> max_dur"
proof (cases "tl c = []")
  case True
  with assms(2) show ?thesis by (cases c) simp_all
next
  case False
  then have "last (tl c) \<in> set (tl c)" by simp
  moreover from False assms(2) have "last c = last (tl c)"
    by (cases c) simp_all
  ultimately have "fsub (w_end (last c)) (w_start (hd c)) \<le> max_dur"
    using assms(1) by simp
  then show ?thesis
    by (simp add: chunk_segment_def sub_segment_def)
qed

text \<open>
  Claim C3, as amended. For every segment with non-empty word timings and every
  \<open>max_dur\<close>, the sub-segments of \<open>split_segment_by_words\<close> are the sub-segments
  of consecutive non-empty groups of the words, in order and with no word left out. Each
  sub-segment starts at the start of its first word and ends at the end of its last word.
  Within a group every word after the first ends at most \<open>max_dur\<close> after the start of
  the group, and the first word of the next group ends more than \<open>max_dur\<close> after it,
  where the difference is the floating-point one that the code computes. So only a
  sub-segment made of a single word can have a computed \<open>end - start\<close> above
  \<open>max_dur\<close> (whether or not it is the final one). When the word timings are in
  temporal order, the sub-segments do not overlap and are ordered by start time; when the
  words follow each other without a pause, so do the sub-segments.
\<close>

theorem split_segment_by_words_chunks:
  assumes "seg_words segment \<noteq> []"
  shows "\<exists>chunks. split_segment_by_words fsub segment max_dur = map chunk_segment chunks
           \<and> concat chunks = seg_words segment
           \<and> (\<forall>c\<in>set chunks. c \<noteq> []
                 \<and> (\<forall>v\<in>set (tl c). fsub (w_end v) (w_start (hd c)) \<le> max_dur)
                 \<and> (length c = 1
                      \<or> fsub (seg_end (chunk_segment c)) (seg_start (chunk_segment c)) \<le> max_dur))
           \<and> successively (\<lambda>c d. max_dur < fsub (w_end (hd d)) (w_start (hd c))) chunks
           \<and> (timings_ordered (seg_words segment) \<longrightarrow>
                 sorted_wrt (\<lambda>a b. seg_end a \<le> seg_start b) (split_segment_by_words fsub segment max_dur)
                 \<and> (\<forall>s\<in>set (split_segment_by_words fsub segment max_dur). seg_start s \<le> seg_end s))
           \<and> (timings_contiguous (seg_words segment) \<longrightarrow>
                 successively (\<lambda>a b. seg_end a = seg_start b) (split_segment_by_words fsub segment max_dur))"
proof -
  from assms obtain w ws where ws: "seg_words segment = w # ws"
    by (cases "seg_words segment") auto
  have p1: "[] @ (w # ws) \<noteq> [] \<longrightarrow> w_start w = w_start (hd ([] @ (w # ws)))"
    by simp
  have p2: "\<forall>v\<in>set (tl []). fsub (w_end v) (w_start w) \<le> max_dur"
    by simp
  from split_loop_chunks [where fsub = fsub and max_dur = max_dur, OF p1 p2]
  obtain chunks where lp: "split_loop fsub max_dur [] (w_start w) (w # ws) = map chunk_segment chunks"
      "concat chunks = [] @ (w # ws)"
      "\<forall>c\<in>set chunks. c \<noteq> [] \<and> (\<forall>v\<in>set (tl c). fsub (w_end v) (w_start (hd c)) \<le> max_dur)"
      "successively (\<lambda>c d. max_dur < fsub (w_end (hd d)) (w_start (hd c))) chunks"
    by blast
  have ch: "split_segment_by_words fsub segment max_dur = map chunk_segment chunks"
      "concat chunks = seg_words segment"
      "\<forall>c\<in>set chunks. c \<noteq> [] \<and> (\<forall>v\<in>set (tl c). fsub (w_end v) (w_start (hd c)) \<le> max_dur)"
      "successively (\<lambda>c d. max_dur < fsub (w_end (hd d)) (w_start (hd c))) chunks"
  proof -
    show "split_segment_by_words fsub segment max_dur = map chunk_segment chunks"
      unfolding split_segment_by_words_def ws using lp(1) by (simp only: list.case)
    show "concat chunks = seg_words segment"
      using lp(2) by (simp add: ws)
  qed (rule lp(3), rule lp(4))
  from ch(3) have ne: "\<forall>c\<in>set chunks. c \<noteq> []" by blast
  have bound: "\<forall>c\<in>set chunks. c \<noteq> []
                 \<and> (\<forall>v\<in>set (tl c). fsub (w_end v) (w_start (hd c)) \<le> max_dur)
                 \<and> (length c = 1
                      \<or> fsub (seg_end (chunk_segment c)) (seg_start (chunk_segment c)) \<le> max_dur)"
  proof
    fix c
    assume c: "c \<in> set chunks"
    from ch(3) c have cne: "c \<noteq> []"
      by blast
    from ch(3) c have b: "\<forall>v\<in>set (tl c). fsub (w_end v) (w_start (hd c)) \<le> max_dur"
      by blast
    from b cne have "length c = 1
        \<or> fsub (seg_end (chunk_segment c)) (seg_start (chunk_segment c)) \<le> max_dur"
      by (rule chunk_bound_last [where fsub = fsub])
    with cne b show "c \<noteq> []
                 \<and> (\<forall>v\<in>set (tl c). fsub (w_end v) (w_start (hd c)) \<le> max_dur)
                 \<and> (length c = 1
                      \<or> fsub (seg_end (chunk_segment c)) (seg_start (chunk_segment c)) \<le> max_dur)"
      by (intro conjI)
  qed
  have ord: "sorted_wrt (\<lambda>a b. seg_end a \<le> seg_start b) (map chunk_segment chunks)
             \<and> (\<forall>s\<in>set (map chunk_segment chunks). seg_start s \<le> seg_end s)"
    if t: "timings_ordered (seg_words segment)"
  proof -
    from timings_ordered_sorted [OF t] ch(2)
    have s: "sorted_wrt (\<lambda>a b. w_end a \<le> w_start b) (concat chunks)"
      and p: "\<forall>w\<in>set (concat chunks). w_start w \<le> w_end w"
      by simp_all
    have "seg_start (chunk_segment c) \<le> seg_end (chunk_segment c)" if "c \<in> set chunks" for c
    proof -
      from that obtain pre post where "chunks = pre @ c # post"
        by (auto simp: in_set_conv_decomp)
      with s have "sorted_wrt (\<lambda>a b. w_end a \<le> w_start b) c"
        by (simp add: sorted_wrt_append)
      moreover from p that have "\<forall>w\<in>set c. w_start w \<le> w_end w" by auto
      moreover from ne that have "c \<noteq> []" by blast
      ultimately have "w_start (hd c) \<le> w_end (last c)" by (rule chunk_span)
      then show ?thesis by (simp add: chunk_segment_def sub_segment_def)
    qed
    with chunks_ordered [OF s ne] show ?thesis by simp
  qed
  have cont: "successively (\<lambda>a b. seg_end a = seg_start b) (map chunk_segment chunks)"
    if t: "timings_contiguous (seg_words segment)"
  proof -
    from t ch(2) have "successively (\<lambda>a b. w_end a = w_start b) (concat chunks)"
      by (simp add: timings_contiguous_def)
    then show ?thesis using ne by (rule chunks_contiguous)
  qed
  have all: "split_segment_by_words fsub segment max_dur = map chunk_segment chunks
           \<and> concat chunks = seg_words segment
           \<and> (\<forall>c\<in>set chunks. c \<noteq> []
                 \<and> (\<forall>v\<in>set (tl c). fsub (w_end v) (w_start (hd c)) \<le> max_dur)
                 \<and> (length c = 1
                      \<or> fsub (seg_end (chunk_segment c)) (seg_start (chunk_segment c)) \<le> max_dur))
           \<and> successively (\<lambda>c d. max_dur < fsub (w_end (hd d)) (w_start (hd c))) chunks
           \<and> (timings_ordered (seg_words segment) \<longrightarrow>
                 sorted_wrt (\<lambda>a b. seg_end a \<le> seg_start b) (split_segment_by_words fsub segment max_dur)
                 \<and> (\<forall>s\<in>set (split_segment_by_words fsub segment max_dur). seg_start s \<le> seg_end s))
           \<and> (timings_contiguous (seg_words segment) \<longrightarrow>
                 successively (\<lambda>a b. seg_end a = seg_start b) (split_segment_by_words fsub segment max_dur))"
    unfolding ch(1)
    apply (intro conjI impI)
          apply (rule refl)
         apply (rule ch(2))
        apply (rule bound)
       apply (rule ch(4))
      apply (erule ord [THEN conjunct1])
     apply (erule ord [THEN conjunct2])
    apply (erule cont)
    done
  show ?thesis
    by (rule exI) (rule all)
qed

lemma run_three_words:
  "split_segment_by_words (-) three_word_segment (5 / 2) =
     [\<lparr>seg_start = 0, seg_end = 2, seg_text = str_of ''a b'', seg_words = []\<rparr>,
      \<lparr>seg_start = 2, seg_end = 3, seg_text = str_of ''c'', seg_words = []\<rparr>]"
  by (simp add: split_segment_by_words_def three_word_segment_def sub_segment_def
      strip_def str_of_def is_space_def)

text \<open>
  The theorem at a segment of three one-second words that follow each other without a
  pause, with \<open>max_dur = 2.5\<close>: the first two words form one sub-segment, the third
  the next, and the second sub-segment starts where the first ends.
\<close>

theorem split_segment_by_words_chunks_witness:
  "seg_words three_word_segment \<noteq> [] \<and> timings_ordered (seg_words three_word_segment)
   \<and> timings_contiguous (seg_words three_word_segment)
   \<and> sorted_wrt (\<lambda>a b. seg_end a \<le> seg_start b) (split_segment_by_words (-) three_word_segment (5 / 2))
   \<and> successively (\<lambda>a b. seg_end a = seg_start b) (split_segment_by_words (-) three_word_segment (5 / 2))
   \<and> length (split_segment_by_words (-) three_word_segment (5 / 2)) = 2"
proof -
  have h: "seg_words three_word_segment \<noteq> []" "timings_ordered (seg_words three_word_segment)"
      "timings_contiguous (seg_words three_word_segment)"
    by (simp_all add: three_word_segment_def timings_contiguous_def)
  from split_segment_by_words_chunks [OF h(1), of "(-)" "5 / 2"] h(2) h(3)
  have "sorted_wrt (\<lambda>a b. seg_end a \<le> seg_start b) (split_segment_by_words (-) three_word_segment (5 / 2))
      \<and> successively (\<lambda>a b. seg_end a = seg_start b) (split_segment_by_words (-) three_word_segment (5 / 2))"
    by blast
  with h show ?thesis
    by (simp add: run_three_words)
qed

text \<open>
  Claim C3 as stated fails, at times on which the floating-point difference is exact.
  A word longer than \<open>max_dur\<close> at the head of a segment is emitted as a sub-segment of
  its own that is not the final one and exceeds \<open>max_dur\<close> (words 0-10 s and 10-11 s,
  \<open>max_dur = 5\<close>). With a pause between two words the sub-segments are not contiguous:
  the first ends at 1 s and the second starts at 2 s (words 0-1 s and 2-3 s,
  \<open>max_dur = 1\<close>). With word timings that are not in temporal order the sub-segments
  overlap and are not ordered by start time (words 10-20 s and 0-30 s, \<open>max_dur = 5\<close>).
\<close>

theorem split_segment_by_words_refuted:
  "split_segment_by_words (-) long_word_segment 5 =
     [\<lparr>seg_start = 0, seg_end = 10, seg_text = str_of ''a'', seg_words = []\<rparr>,
      \<lparr>seg_start = 10, seg_end = 11, seg_text = str_of ''b'', seg_words = []\<rparr>]
   \<and> \<not> seg_end (hd (split_segment_by_words (-) long_word_segment 5))
         - seg_start (hd (split_segment_by_words (-) long_word_segment 5)) \<le> 5
   \<and> split_segment_by_words (-) paused_segment 1 =
     [\<lparr>seg_start = 0, seg_end = 1, seg_text = str_of ''a'', seg_words = []\<rparr>,
      \<lparr>seg_start = 2, seg_end = 3, seg_text = str_of ''b'', seg_words = []\<rparr>]
   \<and> timings_ordered (seg_words paused_segment)
   \<and> \<not> successively (\<lambda>a b. seg_end a = seg_start b) (split_segment_by_words (-) paused_segment 1)
   \<and> split_segment_by_words (-) jumbled_segment 5 =
     [\<lparr>seg_start = 10, seg_end = 20, seg_text = str_of ''a'', seg_words = []\<rparr>,
      \<lparr>seg_start = 0, seg_end = 30, seg_text = str_of ''b'', seg_words = []\<rparr>]
   \<and> \<not> sorted_wrt (\<lambda>a b. seg_start a \<le> seg_start b) (split_segment_by_words (-) jumbled_segment 5)"
  by (simp add: split_segment_by_words_def long_word_segment_def jumbled_segment_def
      paused_segment_def sub_segment_def strip_def str_of_def is_space_def)

section \<open>Hallucination cleanup\<close>

lemma upt_split: "a \<le> L \<Longrightarrow> L < b \<Longrightarrow> [a..<b] = [a..<L] @ L # [Suc L..<b]"
proof -
  assume "a \<le> L" "L < b"
  then have "[a..<L + (b - L)] = [a..<L] @ [L..<L + (b - L)]"
    by (intro upt_add_eq_append)
  with \<open>L < b\<close> show ?thesis
    by (simp add: upt_conv_Cons)
qed

lemma scan_positions_None:
  "scan_positions text L is = None \<longleftrightarrow>
     (\<forall>i\<in>set is. \<not> (slice i (i + L) text = slice (i + L) (i + L * 2) text
                       \<and> strip (slice 0 i text) \<noteq> []))"
  by (induction "is") (auto simp: Let_def)

lemma scan_positions_first:
  assumes "slice i (i + L) text = slice (i + L) (i + L * 2) text" "strip (slice 0 i text) \<noteq> []"
      and "\<forall>j\<in>set pre. \<not> (slice j (j + L) text = slice (j + L) (j + L * 2) text
                       \<and> strip (slice 0 j text) \<noteq> [])"
  shows "scan_positions text L (pre @ i # post) = Some (strip (slice 0 i text))"
  using assms by (induction pre) (auto simp: Let_def)

lemma scan_positions_Some:
  "scan_positions text L is = Some c \<Longrightarrow> c \<noteq> []"
  by (induction "is") (auto simp: Let_def split: if_splits)

lemma scan_lengths_None:
  "scan_lengths text ls = None \<longleftrightarrow>
     (\<forall>L\<in>set ls. scan_positions text L [0..<length text - L * 2] = None)"
  by (induction ls) (auto split: option.splits)

lemma scan_lengths_first:
  assumes "scan_positions text L [0..<length text - L * 2] = Some c"
      and "\<forall>K\<in>set pre. scan_positions text K [0..<length text - K * 2] = None"
  shows "scan_lengths text (pre @ L # post) = Some c"
  using assms by (induction pre) auto

lemma scan_lengths_Some:
  "scan_lengths text ls = Some c \<Longrightarrow> c \<noteq> []"
  by (induction ls) (auto split: option.splits dest: scan_positions_Some)

lemma usable_scanned:
  "i + 2 * L < length text \<Longrightarrow>
     usable text L i \<longleftrightarrow> (slice i (i + L) text = slice (i + L) (i + L * 2) text
                       \<and> strip (slice 0 i text) \<noteq> [])"
  by (simp add: usable_def repeats_at_def)

lemma scan_positions_unusable:
  assumes "\<forall>i. i + 2 * L < length text \<longrightarrow> \<not> usable text L i"
  shows "scan_positions text L [0..<length text - L * 2] = None"
proof -
  have "\<not> (slice i (i + L) text = slice (i + L) (i + L * 2) text \<and> strip (slice 0 i text) \<noteq> [])"
    if "i \<in> set [0..<length text - L * 2]" for i
  proof -
    from that have b: "i + 2 * L < length text" by simp
    with assms have "\<not> usable text L i" by blast
    with usable_scanned [OF b] show ?thesis by blast
  qed
  then show ?thesis by (simp only: scan_positions_None) blast
qed

lemma scan_positions_usable:
  assumes b: "i + 2 * L < length text" and u: "usable text L i"
      and m: "\<forall>j. j < i \<longrightarrow> \<not> usable text L j"
  shows "scan_positions text L [0..<length text - L * 2] = Some (strip (slice 0 i text))"
proof -
  from b have i: "i < length text - L * 2" by simp
  then have split: "[0..<length text - L * 2] = [0..<i] @ i # [Suc i..<length text - L * 2]"
    by (intro upt_split) simp_all
  have pre: "\<forall>j\<in>set [0..<i]. \<not> (slice j (j + L) text = slice (j + L) (j + L * 2) text
                       \<and> strip (slice 0 j text) \<noteq> [])"
  proof
    fix j assume "j \<in> set [0..<i]"
    then have "j < i" by simp
    with m have "\<not> usable text L j" by blast
    moreover from \<open>j < i\<close> b have "j + 2 * L < length text" by simp
    ultimately show "\<not> (slice j (j + L) text = slice (j + L) (j + L * 2) text
                       \<and> strip (slice 0 j text) \<noteq> [])"
      using usable_scanned [of j L] by blast
  qed
  from u usable_scanned [OF b]
  have c: "slice i (i + L) text = slice (i + L) (i + L * 2) text" "strip (slice 0 i text) \<noteq> []"
    by blast+
  show ?thesis
    unfolding split by (rule scan_positions_first [OF c pre])
qed

text \<open>
  Claim C8, as amended. \<open>clean_hallucination\<close> scans the lengths \<open>L = 2, \<dots>, 20\<close> in
  increasing order and, for each, the positions \<open>i\<close> with \<open>i + 2L < len(text)\<close> in
  increasing order. It returns the trimmed text before the first immediate repeat in that
  order whose trimmed prefix is not empty; a repeat with an empty trimmed prefix (such as
  one at the very beginning) is skipped and the scan goes on. If the scan finds no repeat
  with a non-empty trimmed prefix, the result is the first 100 characters, trimmed. A
  result other than that fallback is never empty.
\<close>

theorem clean_hallucination_scan:
  "((\<forall>L i. 2 \<le> L \<and> L \<le> 20 \<and> i + 2 * L < length text \<longrightarrow> \<not> usable text L i)
      \<longrightarrow> clean_hallucination text = strip (slice 0 100 text))
   \<and> (2 \<le> L \<and> L \<le> 20 \<and> i + 2 * L < length text \<and> usable text L i
       \<and> (\<forall>K j. 2 \<le> K \<and> j + 2 * K < length text \<and> (K < L \<or> (K = L \<and> j < i))
              \<longrightarrow> \<not> usable text K j)
      \<longrightarrow> clean_hallucination text = strip (slice 0 i text))
   \<and> (clean_hallucination text = strip (slice 0 100 text) \<or> clean_hallucination text \<noteq> [])"
proof (intro conjI impI)
  assume a: "\<forall>L i. 2 \<le> L \<and> L \<le> 20 \<and> i + 2 * L < length text \<longrightarrow> \<not> usable text L i"
  have "scan_positions text L [0..<length text - L * 2] = None" if "L \<in> set [2..<21]" for L
  proof (rule scan_positions_unusable)
    from that have "2 \<le> L \<and> L < 21" unfolding set_upt atLeastLessThan_iff .
    then have "2 \<le> L" "L \<le> 20" by simp_all
    with a show "\<forall>i. i + 2 * L < length text \<longrightarrow> \<not> usable text L i" by blast
  qed
  then have "scan_lengths text [2..<21] = None"
    by (simp only: scan_lengths_None) blast
  then show "clean_hallucination text = strip (slice 0 100 text)"
    by (simp only: clean_hallucination_def option.case)
next
  assume a: "2 \<le> L \<and> L \<le> 20 \<and> i + 2 * L < length text \<and> usable text L i
       \<and> (\<forall>K j. 2 \<le> K \<and> j + 2 * K < length text \<and> (K < L \<or> (K = L \<and> j < i))
              \<longrightarrow> \<not> usable text K j)"
  then have L: "2 \<le> L" "L \<le> 20" and b: "i + 2 * L < length text" and u: "usable text L i"
    and m: "\<forall>K j. 2 \<le> K \<and> j + 2 * K < length text \<and> (K < L \<or> (K = L \<and> j < i))
              \<longrightarrow> \<not> usable text K j"
    by blast+
  have "\<forall>j. j < i \<longrightarrow> \<not> usable text L j"
  proof (intro allI impI)
    fix j assume "j < i"
    moreover with b have "j + 2 * L < length text" by simp
    ultimately show "\<not> usable text L j" using m L by blast
  qed
  with b u have here: "scan_positions text L [0..<length text - L * 2] = Some (strip (slice 0 i text))"
    by (rule scan_positions_usable)
  have before: "\<forall>K\<in>set [2..<L]. scan_positions text K [0..<length text - K * 2] = None"
  proof
    fix K assume "K \<in> set [2..<L]"
    then have K: "2 \<le> K" "K < L" unfolding set_upt atLeastLessThan_iff by simp_all
    show "scan_positions text K [0..<length text - K * 2] = None"
    proof (rule scan_positions_unusable)
      from K m show "\<forall>j. j + 2 * K < length text \<longrightarrow> \<not> usable text K j" by blast
    qed
  qed
  from L have "[2..<21] = [2..<L] @ L # [Suc L..<21]"
    by (intro upt_split) simp_all
  then have "scan_lengths text [2..<21] = Some (strip (slice 0 i text))"
    using scan_lengths_first [OF here before] by (simp only:)
  then show "clean_hallucination text = strip (slice 0 i text)"
    by (simp only: clean_hallucination_def option.case)
next
  show "clean_hallucination text = strip (slice 0 100 text) \<or> clean_hallucination text \<noteq> []"
  proof (cases "scan_lengths text [2..<21]")
    case None
    then have "clean_hallucination text = strip (slice 0 100 text)"
      by (simp only: clean_hallucination_def option.case)
    then show ?thesis ..
  next
    case (Some c)
    then have "c \<noteq> []" by (rule scan_lengths_Some)
    moreover from Some have "clean_hallucination text = c"
      by (simp only: clean_hallucination_def option.case)
    ultimately show ?thesis by simp
  qed
qed

lemma run_abab: "clean_hallucination (str_of ''ababXcdcd!!'') = str_of ''ababX''"
  by (simp add: clean_hallucination_def str_of_def slice_def strip_def is_space_def upt_rec)

lemma run_xabc: "clean_hallucination (str_of ''xabcabc yzyz!'') = str_of ''xabcabc''"
  by (simp add: clean_hallucination_def str_of_def slice_def strip_def is_space_def upt_rec)

lemma run_hello: "clean_hallucination (str_of ''hello hello world'') = str_of ''hello hello world''"
  by (simp add: clean_hallucination_def str_of_def slice_def strip_def is_space_def upt_rec)

lemma usable_abab_5: "usable (str_of ''ababXcdcd!!'') 2 5"
  by (simp add: usable_def repeats_at_def str_of_def slice_def strip_def is_space_def)

lemma unusable_abab:
  assumes "j < 5"
  shows "\<not> usable (str_of ''ababXcdcd!!'') 2 j"
proof -
  from assms have "j = 0 \<or> j = 1 \<or> j = 2 \<or> j = 3 \<or> j = 4" by arith
  then show ?thesis
    by (elim disjE) (simp_all add: usable_def repeats_at_def str_of_def slice_def strip_def)
qed

lemma unusable_aaaaa:
  assumes "2 \<le> L" "i + 2 * L < 5"
  shows "\<not> usable (str_of ''aaaaa'') L i"
proof -
  from assms have "i = 0" by arith
  then show ?thesis
    by (simp add: usable_def slice_def strip_def)
qed

text \<open>
  The theorem at \<open>"ababXcdcd!!"\<close>, where the repeat of length 2 at position 5 is the
  first with a non-blank prefix, and at \<open>"aaaaa"\<close>, where the only scanned repeat starts
  at position 0 and the fallback applies.
\<close>

theorem clean_hallucination_scan_witness:
  "usable (str_of ''ababXcdcd!!'') 2 5
   \<and> clean_hallucination (str_of ''ababXcdcd!!'') = strip (slice 0 5 (str_of ''ababXcdcd!!''))
   \<and> repeats_at (str_of ''aaaaa'') 2 0
   \<and> clean_hallucination (str_of ''aaaaa'') = strip (slice 0 100 (str_of ''aaaaa''))"
proof -
  have len: "length (str_of ''ababXcdcd!!'') = 11" "length (str_of ''aaaaa'') = 5"
    by (simp_all add: str_of_def)
  have "\<forall>K j. 2 \<le> K \<and> j + 2 * K < length (str_of ''ababXcdcd!!'') \<and> (K < 2 \<or> (K = 2 \<and> j < 5))
          \<longrightarrow> \<not> usable (str_of ''ababXcdcd!!'') K j"
    using unusable_abab by auto
  with usable_abab_5 clean_hallucination_scan [of "str_of ''ababXcdcd!!''" 2 5]
  have a: "clean_hallucination (str_of ''ababXcdcd!!'') = strip (slice 0 5 (str_of ''ababXcdcd!!''))"
    by (simp add: len)
  have "\<forall>L i. 2 \<le> L \<and> L \<le> 20 \<and> i + 2 * L < length (str_of ''aaaaa'') \<longrightarrow> \<not> usable (str_of ''aaaaa'') L i"
    using unusable_aaaaa by (simp add: len)
  with clean_hallucination_scan [of "str_of ''aaaaa''" 2 0]
  have b: "clean_hallucination (str_of ''aaaaa'') = strip (slice 0 100 (str_of ''aaaaa''))"
    by blast
  have "repeats_at (str_of ''aaaaa'') 2 0"
    by (simp add: repeats_at_def str_of_def slice_def)
  with a b usable_abab_5 show ?thesis by simp
qed

text \<open>
  Claim C8 as stated fails. In \<open>"ababXcdcd!!"\<close> the earliest immediate repeat starts at
  the very beginning, yet the result is neither the first 100 characters nor empty: the
  scan goes on to the repeat at position 5. In \<open>"xabcabc yzyz!"\<close> the earliest repeat is
  at position 1 (length 3), yet the text before the later repeat of length 2 at position
  8 is returned, since shorter lengths are scanned first.
\<close>

theorem clean_hallucination_repeat_at_start:
  "repeats_at (str_of ''ababXcdcd!!'') 2 0
   \<and> clean_hallucination (str_of ''ababXcdcd!!'') = str_of ''ababX''
   \<and> strip (slice 0 100 (str_of ''ababXcdcd!!'')) = str_of ''ababXcdcd!!''
   \<and> repeats_at (str_of ''xabcabc yzyz!'') 3 1
   \<and> strip (slice 0 1 (str_of ''xabcabc yzyz!'')) = str_of ''x''
   \<and> clean_hallucination (str_of ''xabcabc yzyz!'') = str_of ''xabcabc''"
  by (simp add: run_abab run_xabc) (simp add: repeats_at_def str_of_def slice_def strip_def is_space_def)

section \<open>Beat splitting\<close>














end
